theory Spec2Isabelle
  imports Main "HOL-Library.AList"
begin

section \<open>Data model\<close>

text \<open>
  The solver of \<^verbatim>\<open>generate.py\<close> (class \<^verbatim>\<open>CrosswordCreator\<close>) works on a crossword that
  it receives from the grid model: a set of slots (\<^verbatim>\<open>Variable\<close>), a vocabulary and the
  table of overlaps. Python sets and dictionaries are represented by lists in iteration
  order (a dictionary by an association list with pairwise different keys, a set by a
  list without repetitions, whose length is the size of the set), so that every loop of
  the source visits the elements in one fixed order. Exceptions are values of type
  \<open>error\<close>; a computation that may raise returns \<open>error + 'a\<close>.
\<close>

datatype direction = ACROSS | DOWN

datatype variable =
  Variable (var_i: nat) (var_j: nat) (var_direction: direction) (var_length: nat)

datatype error = KeyError | IndexError | ValueError | TypeError

type_synonym domains = "(variable \<times> string list) list"

type_synonym assignment = "(variable \<times> string) list"

type_synonym arc = "variable \<times> variable"

text \<open>
  The crossword is a parameter of the solver. \<open>overlaps\<close> is the dictionary
  \<^verbatim>\<open>crossword.overlaps\<close>: a pair of slots that is no key of it raises \<^verbatim>\<open>KeyError\<close>,
  a key maps to \<^verbatim>\<open>None\<close> (no shared cell) or to the pair of offsets of the shared cell.
\<close>

record crossword =
  variables :: "variable list"
  words :: "string list"
  overlaps :: "variable \<times> variable \<Rightarrow> (nat \<times> nat) option option"

text \<open>
  Modelled from the spec: \<^verbatim>\<open>crossword.neighbors\<close> is a method of the grid model, whose
  source is not part of \<^verbatim>\<open>generate.py\<close>. The spec describes it as the set of the other
  slots that a slot overlaps with, derived from the overlap relation.
\<close>

definition neighbors :: "crossword \<Rightarrow> variable \<Rightarrow> variable list" where
  "neighbors cw var =
     [v \<leftarrow> variables cw. v \<noteq> var \<and>
        (case overlaps cw (v, var) of Some (Some ov) \<Rightarrow> True | _ \<Rightarrow> False)]"

section \<open>Python primitives\<close>

text \<open>\<^verbatim>\<open>w[k]\<close> on a string, for an offset \<open>k \<ge> 0\<close>.\<close>

definition getitem :: "string \<Rightarrow> nat \<Rightarrow> error + char" where
  "getitem w k = (if k < length w then Inr (w ! k) else Inl IndexError)"

text \<open>\<^verbatim>\<open>d[k]\<close> on a dictionary.\<close>

definition lookup :: "('k \<times> 'v) list \<Rightarrow> 'k \<Rightarrow> error + 'v" where
  "lookup d k = (case map_of d k of None \<Rightarrow> Inl KeyError | Some v \<Rightarrow> Inr v)"

text \<open>
  \<^verbatim>\<open>any(f(x) for x in xs)\<close> and \<^verbatim>\<open>all(f(x) for x in xs)\<close> stop at the first element
  that decides the result; an exception raised before that point propagates.
\<close>

fun any_err :: "('a \<Rightarrow> error + bool) \<Rightarrow> 'a list \<Rightarrow> error + bool" where
  "any_err f [] = Inr False"
| "any_err f (x # xs) =
     (case f x of Inl e \<Rightarrow> Inl e
      | Inr b \<Rightarrow> if b then Inr True else any_err f xs)"

fun all_err :: "('a \<Rightarrow> error + bool) \<Rightarrow> 'a list \<Rightarrow> error + bool" where
  "all_err f [] = Inr True"
| "all_err f (x # xs) =
     (case f x of Inl e \<Rightarrow> Inl e
      | Inr b \<Rightarrow> if b then all_err f xs else Inr False)"

text \<open>\<^verbatim>\<open>{x for x in xs if f(x)}\<close>, where the condition may raise.\<close>

fun filter_err :: "('a \<Rightarrow> error + bool) \<Rightarrow> 'a list \<Rightarrow> error + 'a list" where
  "filter_err f [] = Inr []"
| "filter_err f (x # xs) =
     (case f x of Inl e \<Rightarrow> Inl e
      | Inr b \<Rightarrow>
          (case filter_err f xs of Inl e \<Rightarrow> Inl e
           | Inr ys \<Rightarrow> Inr (if b then x # ys else ys)))"

section \<open>Domain store and node consistency\<close>

text \<open>\<^verbatim>\<open>__init__\<close>: every slot starts with a copy of the whole vocabulary.\<close>

definition init_domains :: "crossword \<Rightarrow> domains" where
  "init_domains cw = map (\<lambda>var. (var, words cw)) (variables cw)"

text \<open>
  \<^verbatim>\<open>enforce_node_consistency\<close>: each entry of the dictionary is replaced by the words of
  the slot's length.
\<close>

definition enforce_node_consistency :: "domains \<Rightarrow> domains" where
  "enforce_node_consistency doms =
     map (\<lambda>(value, ws). (value, [word \<leftarrow> ws. length word = var_length value])) doms"

section \<open>Arc consistency\<close>

text \<open>
  \<^verbatim>\<open>revise(x, y)\<close> returns the flag and the domain store after the call. The generator
  inside \<^verbatim>\<open>any\<close> reads \<^verbatim>\<open>self.domains[y]\<close> once for each word of \<open>x\<close>, and indexes
  \<^verbatim>\<open>word_x\<close> before \<^verbatim>\<open>word_y\<close>.
\<close>

definition agree :: "string \<Rightarrow> nat \<Rightarrow> string \<Rightarrow> nat \<Rightarrow> error + bool" where
  "agree wa ka wb kb =
     (case getitem wa ka of Inl e \<Rightarrow> Inl e
      | Inr ca \<Rightarrow> (case getitem wb kb of Inl e \<Rightarrow> Inl e | Inr cb \<Rightarrow> Inr (ca = cb)))"

definition revise :: "crossword \<Rightarrow> domains \<Rightarrow> variable \<Rightarrow> variable \<Rightarrow> error + bool \<times> domains" where
  "revise cw doms x y =
     (case overlaps cw (x, y) of
        None \<Rightarrow> Inl KeyError
      | Some None \<Rightarrow> Inr (False, doms)
      | Some (Some overlap) \<Rightarrow>
          (case lookup doms x of Inl e \<Rightarrow> Inl e
           | Inr dx \<Rightarrow>
               (case filter_err
                       (\<lambda>word_x. case lookup doms y of Inl e \<Rightarrow> Inl e
                          | Inr dy \<Rightarrow>
                              any_err (\<lambda>word_y. agree word_x (fst overlap) word_y (snd overlap)) dy)
                       dx of
                  Inl e \<Rightarrow> Inl e
                | Inr valid_words \<Rightarrow>
                    if set dx \<noteq> set valid_words
                    then Inr (True, AList.update x valid_words doms)
                    else Inr (False, doms))))"

text \<open>
  One pass through the body of the \<^verbatim>\<open>while\<close> loop of \<^verbatim>\<open>ac3\<close>, entered with a
  non-empty queue: \<^verbatim>\<open>arcs.pop()\<close> takes the last arc, \<^verbatim>\<open>arcs.insert(0, (z, x))\<close> puts
  an arc in front. The pass raises, returns \<^verbatim>\<open>False\<close>, or leaves a store and a queue
  for the next pass.
\<close>

datatype ac3_pass = Raise error | ReturnFalse domains | Next domains "arc list"

definition enqueue :: "crossword \<Rightarrow> variable \<Rightarrow> variable \<Rightarrow> arc list \<Rightarrow> arc list" where
  "enqueue cw x y arcs = fold (\<lambda>z q. (z, x) # q) (removeAll y (neighbors cw x)) arcs"

definition ac3_pass :: "crossword \<Rightarrow> domains \<Rightarrow> arc list \<Rightarrow> ac3_pass" where
  "ac3_pass cw doms arcs =
     (case last arcs of (x, y) \<Rightarrow>
        (case revise cw doms x y of
           Inl e \<Rightarrow> Raise e
         | Inr (revised, doms') \<Rightarrow>
             (case (if revised
                    then (case lookup doms' x of Inl e \<Rightarrow> Inl e | Inr dx \<Rightarrow> Inr (dx = []))
                    else Inr False) of
                Inl e \<Rightarrow> Raise e
              | Inr emptied \<Rightarrow>
                  if emptied then ReturnFalse doms'
                  else Next doms' (enqueue cw x y (butlast arcs)))))"

text \<open>
  The loop itself may run forever, so it is a partial function: \<open>None\<close> is the call
  that never returns, \<open>Some (Inl e)\<close> the call that raises, \<open>Some (Inr (b, doms'))\<close>
  the call that returns \<open>b\<close> and leaves the store \<open>doms'\<close>.
\<close>

partial_function (option) ac3_loop ::
  "crossword \<Rightarrow> domains \<Rightarrow> arc list \<Rightarrow> (error + bool \<times> domains) option" where
  "ac3_loop cw doms arcs =
     (if arcs = [] then Some (Inr (True, doms))
      else (case ac3_pass cw doms arcs of
              Raise e \<Rightarrow> Some (Inl e)
            | ReturnFalse doms' \<Rightarrow> Some (Inr (False, doms'))
            | Next doms' arcs' \<Rightarrow> ac3_loop cw doms' arcs'))"

text \<open>\<^verbatim>\<open>[(x, y) for x in self.domains for y in self.domains if x != y]\<close>\<close>

definition all_arcs :: "domains \<Rightarrow> arc list" where
  "all_arcs doms =
     concat (map (\<lambda>x. map (\<lambda>y. (x, y)) [y \<leftarrow> map fst doms. x \<noteq> y]) (map fst doms))"

text \<open>\<^verbatim>\<open>ac3(arcs=None)\<close>: \<^verbatim>\<open>not arcs\<close> holds for \<^verbatim>\<open>None\<close> and for the empty list.\<close>

definition ac3 ::
  "crossword \<Rightarrow> domains \<Rightarrow> arc list option \<Rightarrow> (error + bool \<times> domains) option" where
  "ac3 cw doms arcs =
     ac3_loop cw doms
       (case arcs of None \<Rightarrow> all_arcs doms
        | Some q \<Rightarrow> if q = [] then all_arcs doms else q)"

section \<open>Consistency of an assignment\<close>

definition assignment_complete :: "domains \<Rightarrow> assignment \<Rightarrow> bool" where
  "assignment_complete doms a = (set (map fst a) = set (map fst doms))"

definition words_fit_board :: "assignment \<Rightarrow> bool" where
  "words_fit_board a = list_all (\<lambda>word. length (snd word) = var_length (fst word)) a"

text \<open>\<^verbatim>\<open>len(assignment.values()) == len(set(assignment.values()))\<close>\<close>

definition repetition :: "assignment \<Rightarrow> bool" where
  "repetition a = (length (map snd a) = length (remdups (map snd a)))"

text \<open>
  The generator of \<^verbatim>\<open>words_no_conflict\<close> pairs every key of the assignment with each of
  its neighbours that is a key too. The left operand \<^verbatim>\<open>assignment[neighbour][...]\<close> is
  evaluated before the right one.
\<close>

definition conflict_pairs :: "crossword \<Rightarrow> assignment \<Rightarrow> (variable \<times> variable) list" where
  "conflict_pairs cw a =
     concat (map (\<lambda>word. map (\<lambda>neighbour. (word, neighbour))
                            [neighbour \<leftarrow> neighbors cw word. neighbour \<in> set (map fst a)])
                 (map fst a))"

definition offsets :: "crossword \<Rightarrow> variable \<Rightarrow> variable \<Rightarrow> error + nat \<times> nat" where
  "offsets cw u v =
     (case overlaps cw (u, v) of None \<Rightarrow> Inl KeyError
      | Some None \<Rightarrow> Inl TypeError
      | Some (Some ov) \<Rightarrow> Inr ov)"

definition no_conflict :: "crossword \<Rightarrow> assignment \<Rightarrow> variable \<times> variable \<Rightarrow> error + bool" where
  "no_conflict cw a p =
     (case p of (word, neighbour) \<Rightarrow>
        (case lookup a neighbour of Inl e \<Rightarrow> Inl e
         | Inr wn \<Rightarrow>
        (case offsets cw neighbour word of Inl e \<Rightarrow> Inl e
         | Inr ov \<Rightarrow>
        (case getitem wn (fst ov) of Inl e \<Rightarrow> Inl e
         | Inr cn \<Rightarrow>
        (case lookup a word of Inl e \<Rightarrow> Inl e
         | Inr ww \<Rightarrow>
        (case offsets cw neighbour word of Inl e \<Rightarrow> Inl e
         | Inr ov' \<Rightarrow>
        (case getitem ww (snd ov') of Inl e \<Rightarrow> Inl e
         | Inr c \<Rightarrow> Inr (cn = c))))))))"

definition words_no_conflict :: "crossword \<Rightarrow> assignment \<Rightarrow> error + bool" where
  "words_no_conflict cw a = all_err (no_conflict cw a) (conflict_pairs cw a)"

text \<open>
  \<^verbatim>\<open>consistent\<close> computes its three checks one after the other and combines them at
  the end, so an exception of the third check propagates whatever the first two found.
\<close>

definition consistent :: "crossword \<Rightarrow> assignment \<Rightarrow> error + bool" where
  "consistent cw a =
     (case words_no_conflict cw a of Inl e \<Rightarrow> Inl e
      | Inr no_conf \<Rightarrow> Inr (repetition a \<and> words_fit_board a \<and> no_conf))"

section \<open>Heuristics\<close>

fun sum_err :: "('a \<Rightarrow> error + nat) \<Rightarrow> 'a list \<Rightarrow> error + nat" where
  "sum_err f [] = Inr 0"
| "sum_err f (x # xs) =
     (case f x of Inl e \<Rightarrow> Inl e
      | Inr m \<Rightarrow> (case sum_err f xs of Inl e \<Rightarrow> Inl e | Inr n \<Rightarrow> Inr (m + n)))"

fun map_err :: "('a \<Rightarrow> error + 'b) \<Rightarrow> 'a list \<Rightarrow> error + 'b list" where
  "map_err f [] = Inr []"
| "map_err f (x # xs) =
     (case f x of Inl e \<Rightarrow> Inl e
      | Inr y \<Rightarrow> (case map_err f xs of Inl e \<Rightarrow> Inl e | Inr ys \<Rightarrow> Inr (y # ys)))"

text \<open>
  The condition of the innermost generator of \<^verbatim>\<open>order_domain_values\<close>:
  \<^verbatim>\<open>neighbour_word[overlaps[neighbour, var][0]] != word[overlaps[neighbour, var][1]]\<close>.
\<close>

definition rules_out ::
  "crossword \<Rightarrow> variable \<Rightarrow> variable \<Rightarrow> string \<Rightarrow> string \<Rightarrow> error + nat" where
  "rules_out cw var neighbour word neighbour_word =
     (case offsets cw neighbour var of Inl e \<Rightarrow> Inl e
      | Inr ov \<Rightarrow>
     (case getitem neighbour_word (fst ov) of Inl e \<Rightarrow> Inl e
      | Inr cn \<Rightarrow>
     (case offsets cw neighbour var of Inl e \<Rightarrow> Inl e
      | Inr ov' \<Rightarrow>
     (case getitem word (snd ov') of Inl e \<Rightarrow> Inl e
      | Inr c \<Rightarrow> Inr (if cn \<noteq> c then 1 else 0)))))"

definition rule_out_count ::
  "crossword \<Rightarrow> domains \<Rightarrow> variable \<Rightarrow> assignment \<Rightarrow> string \<Rightarrow> error + nat" where
  "rule_out_count cw doms var a word =
     sum_err (\<lambda>neighbour.
                case lookup doms neighbour of Inl e \<Rightarrow> Inl e
                | Inr dn \<Rightarrow> sum_err (rules_out cw var neighbour word) dn)
             [neighbour \<leftarrow> neighbors cw var. neighbour \<notin> set (map fst a)]"

text \<open>
  \<^verbatim>\<open>sorted\<close> is stable, as \<open>sort_key\<close> is: words of equal count keep the order of the
  dictionary \<^verbatim>\<open>rule_out_per_word\<close>, which is the order of the domain.
\<close>

definition order_domain_values ::
  "crossword \<Rightarrow> domains \<Rightarrow> variable \<Rightarrow> assignment \<Rightarrow> error + string list" where
  "order_domain_values cw doms var a =
     (case lookup doms var of Inl e \<Rightarrow> Inl e
      | Inr dv \<Rightarrow>
          (case map_err (\<lambda>word. case rule_out_count cw doms var a word of
                                   Inl e \<Rightarrow> Inl e | Inr n \<Rightarrow> Inr (word, n)) dv of
             Inl e \<Rightarrow> Inl e
           | Inr rule_out_per_word \<Rightarrow> Inr (map fst (sort_key snd rule_out_per_word))))"

text \<open>
  \<^verbatim>\<open>max(..., key=...)\<close> keeps the first of the greatest elements and raises
  \<^verbatim>\<open>ValueError\<close> on an empty sequence. The keys are pairs of integers, compared
  lexicographically.
\<close>

definition key_less :: "int \<times> int \<Rightarrow> int \<times> int \<Rightarrow> bool" where
  "key_less p q = (fst p < fst q \<or> (fst p = fst q \<and> snd p < snd q))"

definition max_by_key :: "('a \<times> int \<times> int) list \<Rightarrow> error + 'a \<times> int \<times> int" where
  "max_by_key cs =
     (case cs of [] \<Rightarrow> Inl ValueError
      | c # rest \<Rightarrow> Inr (fold (\<lambda>x best. if key_less (snd best) (snd x) then x else best) rest c))"

definition select_unassigned_variable ::
  "crossword \<Rightarrow> domains \<Rightarrow> assignment \<Rightarrow> error + variable" where
  "select_unassigned_variable cw doms a =
     (case max_by_key
             [(fst domain, (- int (length (snd domain)), int (length (neighbors cw (fst domain))))).
                domain \<leftarrow> doms, fst domain \<notin> set (map fst a)] of
        Inl e \<Rightarrow> Inl e
      | Inr best \<Rightarrow> Inr (fst best))"

section \<open>Backtracking search\<close>

text \<open>\<^verbatim>\<open>del assignment[var]\<close>\<close>

definition del :: "assignment \<Rightarrow> variable \<Rightarrow> error + assignment" where
  "del a var = (if var \<in> set (map fst a) then Inr (AList.delete var a) else Inl KeyError)"

text \<open>\<^verbatim>\<open>if result:\<close> holds for a dictionary that is not empty.\<close>

definition truthy :: "assignment option \<Rightarrow> bool" where
  "truthy result = (case result of None \<Rightarrow> False | Some r \<Rightarrow> r \<noteq> [])"

text \<open>
  \<^verbatim>\<open>backtrack\<close> mutates the dictionary it is given, so the model returns the value of
  the call together with the dictionary as the call leaves it. \<open>try_values\<close> is the
  \<^verbatim>\<open>for\<close> loop over the ordered values; it runs on the dictionary that the earlier
  passes have left.
\<close>

function backtrack ::
    "crossword \<Rightarrow> domains \<Rightarrow> assignment \<Rightarrow> error + assignment option \<times> assignment"
  and try_values ::
    "crossword \<Rightarrow> domains \<Rightarrow> variable \<Rightarrow> string list \<Rightarrow> assignment \<Rightarrow>
       error + assignment option \<times> assignment"
where
  "backtrack cw doms a =
     (if assignment_complete doms a then Inr (Some a, a)
      else (case select_unassigned_variable cw doms a of Inl e \<Rightarrow> Inl e
            | Inr unassigned_var \<Rightarrow>
                (case order_domain_values cw doms unassigned_var a of Inl e \<Rightarrow> Inl e
                 | Inr vals \<Rightarrow> try_values cw doms unassigned_var vals a)))"
| "try_values cw doms var [] a = Inr (None, a)"
| "try_values cw doms var (value # rest) a =
     (case consistent cw (AList.update var value a) of Inl e \<Rightarrow> Inl e
      | Inr ok \<Rightarrow>
          if ok then
            (case backtrack cw doms (AList.update var value a) of Inl e \<Rightarrow> Inl e
             | Inr (result, a2) \<Rightarrow>
                 if truthy result then Inr (result, a2)
                 else (case del a2 var of Inl e \<Rightarrow> Inl e
                       | Inr a3 \<Rightarrow> try_values cw doms var rest a3))
          else try_values cw doms var rest (AList.update var value a))"
  by pat_completeness auto

section \<open>The entry point\<close>

text \<open>
  \<^verbatim>\<open>solve\<close> ignores the value of \<^verbatim>\<open>ac3\<close> and searches from the empty assignment.
  \<open>None\<close> is the call that never returns.
\<close>

definition solve :: "crossword \<Rightarrow> (error + assignment option) option" where
  "solve cw =
     (case ac3 cw (enforce_node_consistency (init_domains cw)) None of
        None \<Rightarrow> None
      | Some (Inl e) \<Rightarrow> Some (Inl e)
      | Some (Inr (arc_consistent, doms)) \<Rightarrow>
          (case backtrack cw doms [] of
             Inl e \<Rightarrow> Some (Inl e)
           | Inr (result, a) \<Rightarrow> Some (Inr result)))"

section \<open>Specification predicates\<close>

text \<open>
  The properties that the solver is specified to establish, written independently of the
  code. Two words agree at a pair of offsets when both characters exist and are equal.
\<close>

definition same_char :: "string \<Rightarrow> nat \<Rightarrow> string \<Rightarrow> nat \<Rightarrow> bool" where
  "same_char wa ka wb kb = (ka < length wa \<and> kb < length wb \<and> wa ! ka = wb ! kb)"

definition lengths_match :: "assignment \<Rightarrow> bool" where
  "lengths_match a = (\<forall>(v, w) \<in> set a. length w = var_length v)"

definition words_distinct :: "assignment \<Rightarrow> bool" where
  "words_distinct a = distinct (map snd a)"

definition overlaps_agree :: "crossword \<Rightarrow> assignment \<Rightarrow> bool" where
  "overlaps_agree cw a =
     (\<forall>(v, w) \<in> set a. \<forall>(n, wn) \<in> set a. n \<in> set (neighbors cw v) \<longrightarrow>
        (case overlaps cw (n, v) of
           Some (Some ov) \<Rightarrow> same_char wn (fst ov) w (snd ov)
         | _ \<Rightarrow> False))"

definition consistent_spec :: "crossword \<Rightarrow> assignment \<Rightarrow> bool" where
  "consistent_spec cw a = (lengths_match a \<and> words_distinct a \<and> overlaps_agree cw a)"

text \<open>
  The overlap offsets of every assigned slot and assigned neighbour lie inside the two
  assigned words.
\<close>

definition offsets_in_range :: "crossword \<Rightarrow> assignment \<Rightarrow> bool" where
  "offsets_in_range cw a =
     (\<forall>(v, w) \<in> set a. \<forall>(n, wn) \<in> set a. n \<in> set (neighbors cw v) \<longrightarrow>
        (case overlaps cw (n, v) of
           Some (Some ov) \<Rightarrow> fst ov < length wn \<and> snd ov < length w
         | _ \<Rightarrow> True))"

text \<open>No slot of the second store has a word that the first store does not have for it.\<close>

definition only_shrinks :: "domains \<Rightarrow> domains \<Rightarrow> bool" where
  "only_shrinks doms doms' =
     (\<forall>v ws'. lookup doms' v = Inr ws' \<longrightarrow>
        (\<exists>ws. lookup doms v = Inr ws \<and> set ws' \<subseteq> set ws))"

text \<open>What a call of \<open>ac3\<close> that returns leaves of the store it was given.\<close>

definition store_invariant :: "domains \<Rightarrow> error + bool \<times> domains \<Rightarrow> bool" where
  "store_invariant doms r =
     (case r of Inl e \<Rightarrow> True
      | Inr (b, doms') \<Rightarrow> map fst doms' = map fst doms \<and> only_shrinks doms doms')"

text \<open>
  What a call of the search leaves: a dictionary with pairwise different keys, and, when
  it returns an assignment, that same dictionary with a word for every slot of the store.
\<close>

definition search_invariant :: "domains \<Rightarrow> assignment option \<times> assignment \<Rightarrow> bool" where
  "search_invariant doms r =
     (distinct (map fst (snd r)) \<and>
      (case fst r of None \<Rightarrow> True
       | Some s \<Rightarrow> s = snd r \<and> assignment_complete doms s))"

text \<open>
  Every two assigned slots that overlap agree at the shared cell, read from the table of
  overlaps alone.
\<close>

definition overlapping_slots_agree :: "crossword \<Rightarrow> assignment \<Rightarrow> bool" where
  "overlapping_slots_agree cw a =
     (\<forall>(v, w) \<in> set a. \<forall>(n, wn) \<in> set a. n \<noteq> v \<longrightarrow>
        (case overlaps cw (n, v) of
           Some (Some ov) \<Rightarrow> same_char wn (fst ov) w (snd ov)
         | _ \<Rightarrow> True))"

text \<open>
  The pair of slots is a key of the table of overlaps, and when the slots overlap, every
  word of the two domains reaches its offset.
\<close>

definition offsets_fit ::
  "crossword \<Rightarrow> variable \<Rightarrow> variable \<Rightarrow> string list \<Rightarrow> string list \<Rightarrow> bool" where
  "offsets_fit cw x y dx dy =
     (case overlaps cw (x, y) of
        None \<Rightarrow> False
      | Some None \<Rightarrow> True
      | Some (Some ov) \<Rightarrow>
          list_all (\<lambda>w. fst ov < length w) dx \<and> list_all (\<lambda>w. snd ov < length w) dy)"

section \<open>Example crosswords\<close>

text \<open>
  \<open>corner\<close>: two slots of length 2 that share the cell at the start of the across slot
  and the end of the down slot.
\<close>

definition across :: variable where
  "across = Variable 1 0 ACROSS 2"

definition down :: variable where
  "down = Variable 0 0 DOWN 2"

definition corner :: "string list \<Rightarrow> crossword" where
  "corner ws =
     \<lparr>variables = [across, down], words = ws,
      overlaps = map_of [((across, down), Some (0, 1)), ((down, across), Some (1, 0))]\<rparr>"

text \<open>\<open>square\<close>: the open grid of two rows and two columns, with its four slots.\<close>

definition across1 :: variable where
  "across1 = Variable 0 0 ACROSS 2"

definition across2 :: variable where
  "across2 = Variable 1 0 ACROSS 2"

definition down1 :: variable where
  "down1 = Variable 0 0 DOWN 2"

definition down2 :: variable where
  "down2 = Variable 0 1 DOWN 2"

definition square :: crossword where
  "square =
     \<lparr>variables = [across1, across2, down1, down2],
      words = [''ab'', ''ca'', ''ac'', ''ba''],
      overlaps = map_of
        [((across1, down1), Some (0, 0)), ((down1, across1), Some (0, 0)),
         ((across1, down2), Some (1, 0)), ((down2, across1), Some (0, 1)),
         ((across2, down1), Some (0, 1)), ((down1, across2), Some (1, 0)),
         ((across2, down2), Some (1, 1)), ((down2, across2), Some (1, 1)),
         ((across1, across2), None), ((across2, across1), None),
         ((down1, down2), None), ((down2, down1), None)]\<rparr>"

text \<open>The node-consistent store of the square grid, and the queues that \<open>ac3\<close> runs through on it.\<close>

definition square_store :: domains where
  "square_store = enforce_node_consistency (init_domains square)"

definition square_arcs :: "arc list \<Rightarrow> bool" where
  "square_arcs arcs = (arcs \<noteq> [] \<and> set arcs \<subseteq> set (all_arcs square_store))"

section \<open>Termination of the search\<close>

lemma max_by_key_mem: "max_by_key cs = Inr best \<Longrightarrow> best \<in> set cs"
proof -
  have "fold (\<lambda>x best. if key_less (snd best) (snd x) then x else best) rest c \<in> set (c # rest)"
    for rest and c :: "'a \<times> int \<times> int"
    by (induction rest arbitrary: c) (auto split: if_splits)
  then show "max_by_key cs = Inr best \<Longrightarrow> best \<in> set cs"
    by (auto simp: max_by_key_def split: list.splits)
qed

lemma select_unassigned_variable_mem:
  assumes "select_unassigned_variable cw doms a = Inr var"
  shows "var \<in> set (map fst doms)" and "var \<notin> set (map fst a)"
proof -
  from assms obtain best where b: "max_by_key
     [(fst domain, (- int (length (snd domain)), int (length (neighbors cw (fst domain))))).
        domain \<leftarrow> doms, fst domain \<notin> set (map fst a)] = Inr best" and v: "var = fst best"
    by (auto simp: select_unassigned_variable_def split: sum.splits)
  from max_by_key_mem[OF b] v show "var \<in> set (map fst doms)" and "var \<notin> set (map fst a)"
    by (force split: if_splits)+
qed

lemma keys_update: "fst ` set (AList.update k v al) = insert k (fst ` set al)"
  by (induction al) auto

lemma keys_delete: "fst ` set (AList.delete k al) = fst ` set al - {k}"
  by (induction al) auto

lemma backtrack_keys_partial:
  "backtrack_try_values_dom (Inl (cw, doms, a)) \<Longrightarrow> backtrack cw doms a = Inr (r, a')
     \<Longrightarrow> set (map fst a) \<subseteq> set (map fst a')"
  "backtrack_try_values_dom (Inr (cw, doms, var, vals, a)) \<Longrightarrow> try_values cw doms var vals a = Inr (r, a')
     \<Longrightarrow> set (map fst a) - {var} \<subseteq> set (map fst a')"
proof (induction cw doms a and cw doms var vals a arbitrary: r a' and r a'
       rule: backtrack_try_values.pinduct)
  case (1 cw doms a)
  show ?case
  proof (cases "assignment_complete doms a")
    case True
    with 1 show ?thesis by (simp add: backtrack.psimps)
  next
    case False
    with 1(1,3) obtain var vals where s: "select_unassigned_variable cw doms a = Inr var"
      and o: "order_domain_values cw doms var a = Inr vals"
      and t: "try_values cw doms var vals a = Inr (r, a')"
      by (auto simp: backtrack.psimps split: sum.splits)
    from 1(2)[OF False s o t] select_unassigned_variable_mem(2)[OF s] show ?thesis by auto
  qed
next
  case (2 cw doms var a)
  then show ?case by (auto simp: try_values.psimps)
next
  case (3 cw doms var v rest a)
  let ?a1 = "AList.update var v a"
  from 3(1,5) obtain ok where c: "consistent cw ?a1 = Inr ok"
    by (auto simp: try_values.psimps split: sum.splits)
  show ?case
  proof (cases ok)
    case False
    with 3(1,5) c have "try_values cw doms var rest ?a1 = Inr (r, a')"
      by (simp add: try_values.psimps)
    from 3(4)[OF c False this] show ?thesis by (auto simp: keys_update)
  next
    case True
    with 3(1,5) c obtain res a2 where b: "backtrack cw doms ?a1 = Inr (res, a2)"
      by (auto simp: try_values.psimps split: sum.splits)
    from 3(2)[OF c True b] have k2: "set (map fst ?a1) \<subseteq> set (map fst a2)" .
    show ?thesis
    proof (cases "truthy res")
      case t: True
      with 3(1,5) c True b have "a' = a2" by (simp add: try_values.psimps)
      with k2 show ?thesis by (auto simp: keys_update)
    next
      case f: False
      with 3(1,5) c True b obtain a3 where d: "del a2 var = Inr a3"
        and t: "try_values cw doms var rest a3 = Inr (r, a')"
        by (auto simp: try_values.psimps split: sum.splits)
      from d have "a3 = AList.delete var a2" by (auto simp: del_def split: if_splits)
      with k2 have "set (map fst a) - {var} \<subseteq> set (map fst a3)"
        by (auto simp: keys_update keys_delete)
      with 3(3)[OF c True b refl f d t] show ?thesis by blast
    qed
  qed
qed

termination backtrack
proof (relation "inv_image (less_than <*lex*> less_than)
     (\<lambda>x. case x of
        Inl (cw, doms, a) \<Rightarrow> (2 * card (set (map fst doms) - set (map fst a)), 0)
      | Inr (cw, doms, var, vals, a) \<Rightarrow>
          (2 * card (set (map fst doms) - set (map fst a) - {var}) + 1, length vals))",
    goal_cases)
  case 1
  show ?case by (intro wf_inv_image wf_lex_prod wf_less_than)
next
  case (2 cw doms a var vals)
  from select_unassigned_variable_mem[OF 2(2)]
  have "card (set (map fst doms) - set (map fst a) - {var}) < card (set (map fst doms) - set (map fst a))"
    by (intro psubset_card_mono) auto
  then show ?case by simp
next
  case (3 cw doms var v rest a ok)
  have "set (map fst doms) - set (map fst (AList.update var v a))
      = set (map fst doms) - set (map fst a) - {var}"
    by (auto simp: keys_update)
  then show ?case by simp
next
  case (4 cw doms var v rest a ok ba res a2 a3)
  from 4(3,4) have b: "backtrack cw doms (AList.update var v a) = Inr (res, a2)" by simp
  from backtrack_keys_partial(1)[OF 4(7) b]
  have k2: "set (map fst (AList.update var v a)) \<subseteq> set (map fst a2)" .
  from 4(6) have "a3 = AList.delete var a2" by (auto simp: del_def split: if_splits)
  with k2 have "set (map fst a) - {var} \<subseteq> set (map fst a3)"
    by (auto simp: keys_update keys_delete)
  then have "card (set (map fst doms) - set (map fst a3) - {var})
      \<le> card (set (map fst doms) - set (map fst a) - {var})"
    by (intro card_mono) auto
  then show ?case by (simp add: le_less)
next
  case (5 cw doms var v rest a ok)
  have "set (map fst doms) - set (map fst (AList.update var v a)) - {var}
      = set (map fst doms) - set (map fst a) - {var}"
    by (auto simp: keys_update)
  then show ?case by simp
qed

declare backtrack.simps [simp del]

declare ac3_loop.simps [code]

section \<open>Arc revision\<close>

lemma agree_same_char: "agree wa ka wb kb = Inr b \<Longrightarrow> b = same_char wa ka wb kb"
  by (auto simp: agree_def getitem_def same_char_def split: if_splits sum.splits)

lemma any_err_True: "any_err f xs = Inr True \<Longrightarrow> \<exists>x \<in> set xs. f x = Inr True"
  by (induction xs) (auto split: sum.splits if_splits)

lemma any_err_False: "any_err f xs = Inr False \<Longrightarrow> \<forall>x \<in> set xs. f x = Inr False"
  by (induction xs) (auto split: sum.splits if_splits)

lemma filter_err_filter:
  "filter_err f xs = Inr ys \<Longrightarrow> ys = [x \<leftarrow> xs. f x = Inr True]"
  by (induction xs arbitrary: ys) (auto split: sum.splits if_splits)

lemma filter_err_defined:
  "filter_err f xs = Inr ys \<Longrightarrow> x \<in> set xs \<Longrightarrow> \<exists>b. f x = Inr b"
  by (induction xs arbitrary: ys) (auto split: sum.splits if_splits)

lemma lookup_update_same: "lookup (AList.update k v d) k = Inr v"
  by (simp add: lookup_def update_conv')

lemma lookup_update_other: "k' \<noteq> k \<Longrightarrow> lookup (AList.update k v d) k' = lookup d k'"
  by (simp add: lookup_def update_conv')

lemma lookup_key: "lookup d k = Inr v \<Longrightarrow> k \<in> fst ` set d"
  by (auto simp: lookup_def split: option.splits dest: map_of_SomeD intro: rev_image_eqI)

lemma update_keys_same: "k \<in> fst ` set d \<Longrightarrow> map fst (AList.update k v d) = map fst d"
  by (simp add: update_keys)

text \<open>What \<open>revise\<close> keeps of the domain of \<open>x\<close>, when it reaches its end.\<close>

lemma revise_cases:
  assumes "revise cw doms x y = Inr (revised, doms')"
  obtains (no_overlap) "overlaps cw (x, y) = Some None" "revised = False" "doms' = doms"
  | (overlap) ov dx valid_words where "overlaps cw (x, y) = Some (Some ov)"
      "lookup doms x = Inr dx"
      "filter_err (\<lambda>word_x. case lookup doms y of Inl e \<Rightarrow> Inl e
          | Inr dy \<Rightarrow> any_err (\<lambda>word_y. agree word_x (fst ov) word_y (snd ov)) dy) dx
        = Inr valid_words"
      "revised = (set dx \<noteq> set valid_words)"
      "doms' = (if revised then AList.update x valid_words doms else doms)"
  using assms unfolding revise_def
  by (auto split: option.splits sum.splits if_splits)

lemma revise_valid_words:
  assumes f: "filter_err (\<lambda>word_x. case lookup doms y of Inl e \<Rightarrow> Inl e
          | Inr dy \<Rightarrow> any_err (\<lambda>word_y. agree word_x (fst ov) word_y (snd ov)) dy) dx
        = Inr valid_words"
    and y: "lookup doms y = Inr dy"
  shows "w \<in> set valid_words \<longleftrightarrow>
         w \<in> set dx \<and> (\<exists>w' \<in> set dy. same_char w (fst ov) w' (snd ov))"
proof (cases "w \<in> set dx")
  case False
  with filter_err_filter[OF f] show ?thesis by auto
next
  case True
  from filter_err_defined[OF f True] y obtain b
    where b: "any_err (\<lambda>word_y. agree w (fst ov) word_y (snd ov)) dy = Inr b" by auto
  have "b \<longleftrightarrow> (\<exists>w' \<in> set dy. same_char w (fst ov) w' (snd ov))"
  proof (cases b)
    case True
    with b have "any_err (\<lambda>word_y. agree w (fst ov) word_y (snd ov)) dy = Inr True" by simp
    from any_err_True[OF this]
    obtain w' where "w' \<in> set dy" "agree w (fst ov) w' (snd ov) = Inr True" by blast
    with True agree_same_char show ?thesis by blast
  next
    case False
    with b have "any_err (\<lambda>word_y. agree w (fst ov) word_y (snd ov)) dy = Inr False" by simp
    from any_err_False[OF this]
    have "\<forall>w' \<in> set dy. agree w (fst ov) w' (snd ov) = Inr False" .
    with False agree_same_char show ?thesis by blast
  qed
  with filter_err_filter[OF f] True y b show ?thesis by auto
qed

lemma revise_keys:
  assumes "revise cw doms x y = Inr (revised, doms')"
  shows "map fst doms' = map fst doms"
  using assms
proof (cases rule: revise_cases)
  case no_overlap
  then show ?thesis by simp
next
  case (overlap ov dx valid_words)
  from lookup_key[OF overlap(2)] have "map fst (AList.update x valid_words doms) = map fst doms"
    by (rule update_keys_same)
  with overlap(5) show ?thesis by simp
qed

lemma revise_subset:
  assumes "revise cw doms x y = Inr (revised, doms')" "lookup doms' v = Inr ws'"
  shows "\<exists>ws. lookup doms v = Inr ws \<and> set ws' \<subseteq> set ws"
  using assms(1)
proof (cases rule: revise_cases)
  case no_overlap
  with assms(2) show ?thesis by auto
next
  case (overlap ov dx valid_words)
  show ?thesis
  proof (cases "revised \<and> v = x")
    case True
    with overlap assms(2) have "ws' = valid_words" by (simp add: lookup_update_same)
    with filter_err_filter[OF overlap(3)] overlap(2) True show ?thesis by auto
  next
    case False
    with overlap assms(2) have "lookup doms v = Inr ws'"
      by (auto simp: lookup_update_other split: if_splits)
    then show ?thesis by auto
  qed
qed

lemma revise_sound_aux:
  assumes r: "revise cw doms x y = Inr (revised, doms')"
    and x: "lookup doms x = Inr dx" and y: "lookup doms y = Inr dy"
  shows "\<exists>dx'. lookup doms' x = Inr dx' \<and>
           (\<forall>w. w \<in> set dx' \<longleftrightarrow>
              w \<in> set dx \<and>
              (overlaps cw (x, y) = Some None \<or>
               (\<exists>ov. overlaps cw (x, y) = Some (Some ov) \<and>
                  (\<exists>w' \<in> set dy. same_char w (fst ov) w' (snd ov))))) \<and>
           (revised \<longleftrightarrow> set dx' \<noteq> set dx)"
  using r
proof (cases rule: revise_cases)
  case no_overlap
  with x show ?thesis by auto
next
  case (overlap ov dx0 valid_words)
  with x have dx0: "dx0 = dx" by simp
  note v = revise_valid_words[OF overlap(3) y, unfolded dx0]
  show ?thesis
  proof (cases revised)
    case True
    with overlap have "lookup doms' x = Inr valid_words" by (simp add: lookup_update_same)
    moreover from True overlap dx0 have "set valid_words \<noteq> set dx" by auto
    ultimately show ?thesis using v overlap(1) True by auto
  next
    case False
    with overlap x dx0 have "lookup doms' x = Inr dx" "set dx = set valid_words" by auto
    then show ?thesis using v overlap(1) False by auto
  qed
qed

section \<open>Invariants of the domain store\<close>

lemma only_shrinks_refl: "only_shrinks doms doms"
  by (simp add: only_shrinks_def)

lemma only_shrinks_trans:
  "only_shrinks da db \<Longrightarrow> only_shrinks db dc \<Longrightarrow> only_shrinks da dc"
  unfolding only_shrinks_def by (meson subset_trans)

lemma lookup_enforce_node_consistency:
  "lookup (enforce_node_consistency doms) v =
     (case lookup doms v of Inl e \<Rightarrow> Inl e
      | Inr ws \<Rightarrow> Inr [word \<leftarrow> ws. length word = var_length v])"
  by (induction doms) (auto simp: enforce_node_consistency_def lookup_def)

lemma enforce_node_consistency_shrinks: "only_shrinks doms (enforce_node_consistency doms)"
  by (auto simp: only_shrinks_def lookup_enforce_node_consistency split: sum.splits)

lemma enforce_node_consistency_keys: "map fst (enforce_node_consistency doms) = map fst doms"
  by (induction doms) (auto simp: enforce_node_consistency_def)

lemma revise_shrinks: "revise cw doms x y = Inr (revised, doms') \<Longrightarrow> only_shrinks doms doms'"
  unfolding only_shrinks_def using revise_subset by blast

lemma ac3_pass_ReturnFalse:
  "ac3_pass cw doms arcs = ReturnFalse doms' \<Longrightarrow>
     \<exists>revised. revise cw doms (fst (last arcs)) (snd (last arcs)) = Inr (revised, doms')"
  by (auto simp: ac3_pass_def split: prod.splits sum.splits if_splits)

lemma ac3_pass_Next:
  "ac3_pass cw doms arcs = Next doms' arcs' \<Longrightarrow>
     \<exists>revised. revise cw doms (fst (last arcs)) (snd (last arcs)) = Inr (revised, doms')"
  by (auto simp: ac3_pass_def split: prod.splits sum.splits if_splits)

lemma ac3_loop_store_invariant:
  assumes "ac3_loop cw doms arcs = Some r"
  shows "store_invariant doms r"
proof (rule ac3_loop.raw_induct[where P = "\<lambda>cw doms arcs r. store_invariant doms r", OF _ assms],
       goal_cases)
  case (1 loop cw doms arcs r)
  show ?case
  proof (cases "arcs = []")
    case True
    with 1(2) show ?thesis by (auto simp: store_invariant_def only_shrinks_refl)
  next
    case False
    show ?thesis
    proof (cases "ac3_pass cw doms arcs")
      case (Raise e)
      with 1(2) False show ?thesis by (auto simp: store_invariant_def)
    next
      case (ReturnFalse d)
      with 1(2) False have "r = Inr (False, d)" by simp
      with ac3_pass_ReturnFalse[OF ReturnFalse] revise_keys revise_shrinks
      show ?thesis unfolding store_invariant_def by auto
    next
      case (Next d q)
      with 1(2) False have "loop cw d q = Some r" by simp
      from 1(1)[OF this] have "store_invariant d r" .
      moreover from ac3_pass_Next[OF Next] revise_keys revise_shrinks
      have "map fst d = map fst doms" "only_shrinks doms d" by blast+
      ultimately show ?thesis
        by (auto simp: store_invariant_def split: sum.splits intro: only_shrinks_trans)
    qed
  qed
qed

lemma ac3_loop_invariant:
  assumes "ac3_loop cw doms arcs = Some (Inr (b, doms'))"
  shows "map fst doms' = map fst doms \<and> only_shrinks doms doms'"
  using ac3_loop_store_invariant[OF assms] by (simp add: store_invariant_def)

lemma ac3_invariant:
  "ac3 cw doms arcs = Some (Inr (b, doms')) \<Longrightarrow>
     map fst doms' = map fst doms \<and> only_shrinks doms doms'"
  unfolding ac3_def by (rule ac3_loop_invariant)

lemma init_domains_keys: "map fst (init_domains cw) = variables cw"
  by (simp add: init_domains_def comp_def)

section \<open>The arc queue on the square grid\<close>

lemmas eval_defs = ac3_def all_arcs_def ac3_pass_def revise_def enqueue_def neighbors_def
  lookup_def agree_def getitem_def enforce_node_consistency_def init_domains_def

lemmas corner_defs = corner_def across_def down_def

lemmas square_defs = square_def across1_def across2_def down1_def down2_def

lemma enqueue_append:
  "enqueue cw x y arcs = rev (map (\<lambda>z. (z, x)) (removeAll y (neighbors cw x))) @ arcs"
proof -
  have "fold (\<lambda>z q. (z, x) # q) zs q = rev (map (\<lambda>z. (z, x)) zs) @ q" for zs and q :: "arc list"
    by (induction zs arbitrary: q) auto
  then show ?thesis by (simp add: enqueue_def)
qed

lemma square_store_eval:
  "square_store =
     [(across1, [''ab'', ''ca'', ''ac'', ''ba'']), (across2, [''ab'', ''ca'', ''ac'', ''ba'']),
      (down1, [''ab'', ''ca'', ''ac'', ''ba'']), (down2, [''ab'', ''ca'', ''ac'', ''ba''])]"
  by (simp add: square_store_def square_def enforce_node_consistency_def init_domains_def
      across1_def across2_def down1_def down2_def)

lemma square_all_arcs_eval:
  "all_arcs square_store =
     [(across1, across2), (across1, down1), (across1, down2),
      (across2, across1), (across2, down1), (across2, down2),
      (down1, across1), (down1, across2), (down1, down2),
      (down2, across1), (down2, across2), (down2, down1)]"
  unfolding square_store_eval by (simp add: all_arcs_def square_defs)

lemma square_revise_eval:
  "list_all (\<lambda>(x, y). revise square square_store x y = Inr (False, square_store))
     (all_arcs square_store)"
  by (simp only: square_all_arcs_eval)
     (simp add: square_store_eval square_defs revise_def lookup_def agree_def getitem_def)

lemma square_neighbors_eval:
  "neighbors square across1 = [down1, down2]" "neighbors square across2 = [down1, down2]"
  "neighbors square down1 = [across1, across2]" "neighbors square down2 = [across1, across2]"
  by (simp_all add: neighbors_def square_defs)

lemma square_enqueue_eval:
  "list_all (\<lambda>(x, y). removeAll y (neighbors square x) \<noteq> [] \<and>
       list_all (\<lambda>z. (z, x) \<in> set (all_arcs square_store)) (neighbors square x))
     (all_arcs square_store)"
  by (simp only: square_all_arcs_eval list.pred_inject prod.case square_neighbors_eval)
     (simp add: across1_def across2_def down1_def down2_def)

lemma square_pass:
  assumes "square_arcs arcs"
  shows "\<exists>arcs'. ac3_pass square square_store arcs = Next square_store arcs' \<and> square_arcs arcs'"
proof -
  obtain x y where l: "last arcs = (x, y)" by (cases "last arcs")
  from assms have ne: "arcs \<noteq> []" by (simp add: square_arcs_def)
  then have "last arcs \<in> set arcs" by simp
  with assms l have xy: "(x, y) \<in> set (all_arcs square_store)"
    by (auto simp: square_arcs_def)
  with square_revise_eval have r: "revise square square_store x y = Inr (False, square_store)"
    by (auto simp: list_all_iff)
  from xy square_enqueue_eval have n: "removeAll y (neighbors square x) \<noteq> []"
    and z: "\<forall>z \<in> set (neighbors square x). (z, x) \<in> set (all_arcs square_store)"
    by (auto simp: list_all_iff)
  let ?q = "enqueue square x y (butlast arcs)"
  from l r have "ac3_pass square square_store arcs = Next square_store ?q"
    by (simp add: ac3_pass_def)
  moreover have "square_arcs ?q"
  proof -
    from assms have "set (butlast arcs) \<subseteq> set (all_arcs square_store)"
      by (auto simp: square_arcs_def dest: in_set_butlastD)
    with n z show ?thesis
      unfolding square_arcs_def enqueue_append by auto
  qed
  ultimately show ?thesis by blast
qed

lemma square_loop_runs:
  assumes "ac3_loop cw doms arcs = Some r"
  shows "\<not> (cw = square \<and> doms = square_store \<and> square_arcs arcs)"
proof (rule ac3_loop.raw_induct[where
         P = "\<lambda>cw doms arcs r. \<not> (cw = square \<and> doms = square_store \<and> square_arcs arcs)",
         OF _ assms], goal_cases)
  case (1 loop cw doms arcs r)
  show ?case
  proof
    assume a: "cw = square \<and> doms = square_store \<and> square_arcs arcs"
    then obtain arcs' where p: "ac3_pass square square_store arcs = Next square_store arcs'"
      and q: "square_arcs arcs'"
      using square_pass by blast
    from a have "arcs \<noteq> []" by (simp add: square_arcs_def)
    with 1(2) a p have "loop square square_store arcs' = Some r" by simp
    from 1(1)[OF this] q show False by simp
  qed
qed

lemma square_all_arcs: "square_arcs (all_arcs square_store)"
  by (simp add: square_arcs_def square_all_arcs_eval)

section \<open>The consistency checker\<close>

lemma all_err_True: "all_err f xs = Inr True \<Longrightarrow> \<forall>x \<in> set xs. f x = Inr True"
  by (induction xs) (auto split: sum.splits if_splits)

lemma all_err_False: "all_err f xs = Inr False \<Longrightarrow> \<exists>x \<in> set xs. f x = Inr False"
  by (induction xs) (auto split: sum.splits if_splits)

lemma all_err_total: "\<forall>x \<in> set xs. \<exists>b. f x = Inr b \<Longrightarrow> \<exists>b. all_err f xs = Inr b"
  by (induction xs) (auto split: sum.splits)

lemma agree_in_range:
  "ka < length wa \<Longrightarrow> kb < length wb \<Longrightarrow> agree wa ka wb kb = Inr (same_char wa ka wb kb)"
  by (simp add: agree_def getitem_def same_char_def)

lemma words_fit_board_iff: "words_fit_board a \<longleftrightarrow> lengths_match a"
  by (auto simp: words_fit_board_def lengths_match_def list_all_iff)

lemma repetition_iff: "repetition a \<longleftrightarrow> words_distinct a"
  unfolding repetition_def words_distinct_def
  by (metis length_remdups_eq remdups_id_iff_distinct)

lemma neighbors_overlap:
  "n \<in> set (neighbors cw v) \<Longrightarrow> \<exists>ov. overlaps cw (n, v) = Some (Some ov)"
  by (auto simp: neighbors_def split: option.splits)

lemma lookup_distinct: "distinct (map fst d) \<Longrightarrow> (k, v) \<in> set d \<Longrightarrow> lookup d k = Inr v"
  by (simp add: lookup_def)

lemma conflict_pairs_iff:
  "(v, n) \<in> set (conflict_pairs cw a) \<longleftrightarrow>
     v \<in> fst ` set a \<and> n \<in> set (neighbors cw v) \<and> n \<in> fst ` set a"
  by (auto simp: conflict_pairs_def)

lemma no_conflict_agree:
  assumes "distinct (map fst a)" "(v, w) \<in> set a" "(n, wn) \<in> set a"
    and "overlaps cw (n, v) = Some (Some ov)"
  shows "no_conflict cw a (v, n) = agree wn (fst ov) w (snd ov)"
  using assms
  by (simp add: no_conflict_def lookup_distinct offsets_def agree_def split: sum.splits)

lemma words_no_conflict_True:
  assumes d: "distinct (map fst a)" and t: "words_no_conflict cw a = Inr True"
  shows "overlaps_agree cw a"
  unfolding overlaps_agree_def
proof (intro ballI, clarify)
  fix v w n wn
  assume vw: "(v, w) \<in> set a" and nw: "(n, wn) \<in> set a" and nb: "n \<in> set (neighbors cw v)"
  from neighbors_overlap[OF nb] obtain ov where ov: "overlaps cw (n, v) = Some (Some ov)" ..
  from vw nw nb have "(v, n) \<in> set (conflict_pairs cw a)"
    by (force simp: conflict_pairs_iff)
  with all_err_True[OF t[unfolded words_no_conflict_def]]
  have "no_conflict cw a (v, n) = Inr True" by blast
  with no_conflict_agree[OF d vw nw ov] have "agree wn (fst ov) w (snd ov) = Inr True" by simp
  from agree_same_char[OF this] ov
  show "case overlaps cw (n, v) of None \<Rightarrow> False | Some None \<Rightarrow> False
        | Some (Some ov) \<Rightarrow> same_char wn (fst ov) w (snd ov)"
    by simp
qed

lemma words_no_conflict_False:
  assumes d: "distinct (map fst a)" and f: "words_no_conflict cw a = Inr False"
  shows "\<not> overlaps_agree cw a"
proof
  assume oa: "overlaps_agree cw a"
  from all_err_False[OF f[unfolded words_no_conflict_def]]
  obtain v n where p: "(v, n) \<in> set (conflict_pairs cw a)"
    and nc: "no_conflict cw a (v, n) = Inr False" by auto
  from p obtain w wn where vw: "(v, w) \<in> set a" and nw: "(n, wn) \<in> set a"
    and nb: "n \<in> set (neighbors cw v)"
    by (auto simp: conflict_pairs_iff)
  from neighbors_overlap[OF nb] obtain ov where ov: "overlaps cw (n, v) = Some (Some ov)" ..
  from nc no_conflict_agree[OF d vw nw ov] have "agree wn (fst ov) w (snd ov) = Inr False"
    by simp
  from agree_same_char[OF this] have "\<not> same_char wn (fst ov) w (snd ov)" by simp
  moreover from oa vw nw nb ov have "same_char wn (fst ov) w (snd ov)"
    by (fastforce simp: overlaps_agree_def)
  ultimately show False ..
qed

lemma words_no_conflict_total:
  assumes d: "distinct (map fst a)" and r: "offsets_in_range cw a"
  shows "\<exists>b. words_no_conflict cw a = Inr b"
  unfolding words_no_conflict_def
proof (rule all_err_total, clarify)
  fix v n
  assume "(v, n) \<in> set (conflict_pairs cw a)"
  then obtain w wn where vw: "(v, w) \<in> set a" and nw: "(n, wn) \<in> set a"
    and nb: "n \<in> set (neighbors cw v)"
    by (auto simp: conflict_pairs_iff)
  from neighbors_overlap[OF nb] obtain ov where ov: "overlaps cw (n, v) = Some (Some ov)" ..
  from r vw nw nb ov have "fst ov < length wn" "snd ov < length w"
    by (fastforce simp: offsets_in_range_def)+
  from agree_in_range[OF this] no_conflict_agree[OF d vw nw ov]
  show "\<exists>b. no_conflict cw a (v, n) = Inr b" by simp
qed

lemma consistent_value:
  assumes "distinct (map fst a)" "consistent cw a = Inr b"
  shows "b = consistent_spec cw a"
proof -
  from assms(2) obtain nc where nc: "words_no_conflict cw a = Inr nc"
    and b: "b = (repetition a \<and> words_fit_board a \<and> nc)"
    by (auto simp: consistent_def split: sum.splits)
  have "nc = overlaps_agree cw a"
    using words_no_conflict_True[OF assms(1)] words_no_conflict_False[OF assms(1)] nc
    by (cases nc) auto
  with b show ?thesis
    by (auto simp: consistent_spec_def words_fit_board_iff repetition_iff)
qed

lemma consistent_returns:
  assumes "distinct (map fst a)" "offsets_in_range cw a"
  shows "consistent cw a = Inr (consistent_spec cw a)"
proof -
  from words_no_conflict_total[OF assms] obtain nc where "words_no_conflict cw a = Inr nc" ..
  then have c: "consistent cw a = Inr (repetition a \<and> words_fit_board a \<and> nc)"
    by (simp add: consistent_def)
  from consistent_value[OF assms(1) c] c show ?thesis by simp
qed

section \<open>Soundness of the search\<close>

lemma distinct_keys_update: "distinct (map fst a) \<Longrightarrow> distinct (map fst (AList.update k v a))"
  by (rule distinct_update)

lemma distinct_keys_delete: "distinct (map fst a) \<Longrightarrow> distinct (map fst (AList.delete k a))"
  by (rule distinct_delete)

lemma backtrack_sound:
  "distinct (map fst a) \<Longrightarrow> backtrack cw doms a = Inr r \<Longrightarrow>
     search_invariant doms r \<and>
     (\<forall>s. fst r = Some s \<longrightarrow> s = a \<or> consistent cw s = Inr True)"
  "distinct (map fst a) \<Longrightarrow> try_values cw doms var vals a = Inr r \<Longrightarrow>
     search_invariant doms r \<and> (\<forall>s. fst r = Some s \<longrightarrow> consistent cw s = Inr True)"
proof (induction cw doms a and cw doms var vals a arbitrary: r and r
       rule: backtrack_try_values.induct)
  case (1 cw doms a)
  show ?case
  proof (cases "assignment_complete doms a")
    case True
    with 1(2,3) show ?thesis by (auto simp: backtrack.simps search_invariant_def)
  next
    case False
    with 1(3) obtain var vals where s: "select_unassigned_variable cw doms a = Inr var"
      and o: "order_domain_values cw doms var a = Inr vals"
      and t: "try_values cw doms var vals a = Inr r"
      by (auto simp: backtrack.simps split: sum.splits)
    from 1(1)[OF False s o 1(2) t] show ?thesis by auto
  qed
next
  case (2 cw doms var a)
  then show ?case by (auto simp: search_invariant_def)
next
  case (3 cw doms var v rest a)
  let ?a1 = "AList.update var v a"
  have d1: "distinct (map fst ?a1)" using 3(4) by (rule distinct_keys_update)
  from 3(5) obtain ok where c: "consistent cw ?a1 = Inr ok"
    by (auto split: sum.splits)
  show ?case
  proof (cases ok)
    case False
    with 3(5) c have "try_values cw doms var rest ?a1 = Inr r" by simp
    from 3(3)[OF c False d1 this] show ?thesis .
  next
    case True
    with 3(5) c obtain res a2 where b: "backtrack cw doms ?a1 = Inr (res, a2)"
      by (auto split: sum.splits)
    from 3(1)[OF c True d1 b]
    have i2: "search_invariant doms (res, a2)"
      and s2: "\<forall>s. res = Some s \<longrightarrow> s = ?a1 \<or> consistent cw s = Inr True" by auto
    show ?thesis
    proof (cases "truthy res")
      case t: True
      with 3(5) c True b have "r = (res, a2)" by simp
      with i2 s2 c True show ?thesis by auto
    next
      case f: False
      with 3(5) c True b obtain a3 where d: "del a2 var = Inr a3"
        and t: "try_values cw doms var rest a3 = Inr r"
        by (auto split: sum.splits)
      from d have "a3 = AList.delete var a2" by (auto simp: del_def split: if_splits)
      with i2 have "distinct (map fst a3)"
        by (simp add: search_invariant_def distinct_keys_delete)
      from 3(2)[OF c True b refl f d this t] show ?thesis .
    qed
  qed
qed

lemma consistent_spec_Nil: "consistent_spec cw []"
  by (simp add: consistent_spec_def lengths_match_def words_distinct_def overlaps_agree_def)

lemma solve_sound_aux:
  assumes "solve cw = Some (Inr (Some a))"
  shows "set (map fst a) = set (variables cw) \<and> distinct (map fst a) \<and> consistent_spec cw a"
proof -
  let ?d = "enforce_node_consistency (init_domains cw)"
  from assms obtain b doms a' where ac: "ac3 cw ?d None = Some (Inr (b, doms))"
    and bt: "backtrack cw doms [] = Inr (Some a, a')"
    by (auto simp: solve_def split: option.splits sum.splits prod.splits)
  from ac3_invariant[OF ac] have "map fst doms = variables cw"
    by (simp add: enforce_node_consistency_keys init_domains_keys)
  moreover from backtrack_sound(1)[OF _ bt]
  have "distinct (map fst a)" "assignment_complete doms a" "a = [] \<or> consistent cw a = Inr True"
    by (auto simp: search_invariant_def)
  moreover from this(1,3) have "consistent_spec cw a"
    using consistent_value[of a cw True] consistent_spec_Nil by auto
  ultimately show ?thesis by (simp add: assignment_complete_def)
qed

section \<open>Calls of revise that return\<close>

lemma any_err_total: "\<forall>x \<in> set xs. \<exists>b. f x = Inr b \<Longrightarrow> \<exists>b. any_err f xs = Inr b"
  by (induction xs) (auto split: sum.splits)

lemma filter_err_total: "\<forall>x \<in> set xs. \<exists>b. f x = Inr b \<Longrightarrow> \<exists>ys. filter_err f xs = Inr ys"
  by (induction xs) (auto split: sum.splits)

lemma revise_returns:
  assumes x: "lookup doms x = Inr dx" and y: "lookup doms y = Inr dy"
    and f: "offsets_fit cw x y dx dy"
  shows "\<exists>r. revise cw doms x y = Inr r"
proof (cases "overlaps cw (x, y)")
  case None
  with f show ?thesis by (simp add: offsets_fit_def)
next
  case (Some o1)
  show ?thesis
  proof (cases o1)
    case None
    with Some show ?thesis by (auto simp: revise_def)
  next
    case (Some ov)
    with \<open>overlaps cw (x, y) = Some o1\<close> f
    have rx: "\<forall>w \<in> set dx. fst ov < length w" and ry: "\<forall>w \<in> set dy. snd ov < length w"
      by (auto simp: offsets_fit_def list_all_iff)
    have "\<forall>word_x \<in> set dx. \<exists>b.
        any_err (\<lambda>word_y. agree word_x (fst ov) word_y (snd ov)) dy = Inr b"
    proof
      fix word_x assume "word_x \<in> set dx"
      with rx ry have "\<forall>word_y \<in> set dy. \<exists>b. agree word_x (fst ov) word_y (snd ov) = Inr b"
        by (auto simp: agree_in_range)
      then show "\<exists>b. any_err (\<lambda>word_y. agree word_x (fst ov) word_y (snd ov)) dy = Inr b"
        by (rule any_err_total)
    qed
    with y have "\<forall>word_x \<in> set dx. \<exists>b.
        (case lookup doms y of Inl e \<Rightarrow> Inl e
         | Inr dy \<Rightarrow> any_err (\<lambda>word_y. agree word_x (fst ov) word_y (snd ov)) dy) = Inr b"
      by simp
    from filter_err_total[OF this] obtain valid_words where
      "filter_err (\<lambda>word_x. case lookup doms y of Inl e \<Rightarrow> Inl e
         | Inr dy \<Rightarrow> any_err (\<lambda>word_y. agree word_x (fst ov) word_y (snd ov)) dy) dx
        = Inr valid_words" ..
    with Some \<open>overlaps cw (x, y) = Some o1\<close> x show ?thesis
      by (auto simp: revise_def)
  qed
qed

section \<open>Complete assignments\<close>

lemma overlaps_agree_complete:
  assumes "overlaps_agree cw a" "set (map fst a) = set (variables cw)"
  shows "overlapping_slots_agree cw a"
  unfolding overlapping_slots_agree_def
proof (intro ballI, clarify)
  fix v w n wn
  assume vw: "(v, w) \<in> set a" and nw: "(n, wn) \<in> set a" and ne: "n \<noteq> v"
  show "case overlaps cw (n, v) of None \<Rightarrow> True | Some None \<Rightarrow> True
        | Some (Some ov) \<Rightarrow> same_char wn (fst ov) w (snd ov)"
  proof (cases "overlaps cw (n, v)")
    case None
    then show ?thesis by simp
  next
    case (Some o1)
    show ?thesis
    proof (cases o1)
      case None
      with Some show ?thesis by simp
    next
      case (Some ov)
      from nw assms(2) have "n \<in> set (variables cw)" by force
      with ne Some \<open>overlaps cw (n, v) = Some o1\<close> have "n \<in> set (neighbors cw v)"
        by (simp add: neighbors_def)
      with assms(1) vw nw have "case overlaps cw (n, v) of None \<Rightarrow> False | Some None \<Rightarrow> False
        | Some (Some ov) \<Rightarrow> same_char wn (fst ov) w (snd ov)"
        by (fastforce simp: overlaps_agree_def)
      with Some \<open>overlaps cw (n, v) = Some o1\<close> show ?thesis by simp
    qed
  qed
qed

section \<open>The entry point on the square grid\<close>

text \<open>As \<open>ac3\<close> does not return on the square grid, \<open>solve\<close> does not either.\<close>

lemma solve_square: "solve square = None"
proof (cases "ac3 square (enforce_node_consistency (init_domains square)) None")
  case None
  then show ?thesis by (simp add: solve_def)
next
  case (Some r)
  then have "ac3_loop square square_store (all_arcs square_store) = Some r"
    by (simp add: ac3_def square_store_def)
  from square_loop_runs[OF this] square_all_arcs show ?thesis by simp
qed

section \<open>Properties of the solver\<close>

text \<open>
  C1: on the square grid, whose four domains are arc consistent from the start, every
  pass puts an arc into the queue, and \<open>ac3\<close> never returns.
\<close>

theorem ac3_runs_forever_on_square:
  "ac3 square (enforce_node_consistency (init_domains square)) None = None"
proof (cases "ac3 square (enforce_node_consistency (init_domains square)) None")
  case None
  then show ?thesis .
next
  case (Some r)
  then have "ac3_loop square square_store (all_arcs square_store) = Some r"
    by (simp add: ac3_def square_store_def)
  from square_loop_runs[OF this] square_all_arcs show ?thesis by simp
qed

text \<open>
  C2: on the corner grid with the single word \<open>ab\<close> the search from the empty assignment
  returns \<open>None\<close>, and the assignment then holds an entry for the down slot: the entry
  of a value that fails the consistency check is never deleted.
\<close>

theorem backtrack_leaves_entry:
  "backtrack (corner [''ab'']) (enforce_node_consistency (init_domains (corner [''ab'']))) []
     = Inr (None, [(down, ''ab'')])"
  by code_simp

text \<open>
  C3: \<open>solve\<close> does not find every filling. On the corner grid with the words \<open>aa\<close>,
  \<open>bc\<close>, \<open>cb\<close>, \<open>dd\<close> the assignment of \<open>bc\<close> to the across slot and \<open>cb\<close> to the
  down slot is complete and consistent, and \<open>solve\<close> returns \<open>None\<close>: the entry that
  the failed branch for \<open>aa\<close> leaves behind for the down slot makes the checker reject
  every later word of the across slot. On the square grid the rows \<open>ab\<close>, \<open>ca\<close> and
  the columns \<open>ac\<close>, \<open>ba\<close> are a complete and consistent assignment, and \<open>solve\<close>
  does not return at all.
\<close>

theorem solve_misses_solution:
  "solve (corner [''aa'', ''bc'', ''cb'', ''dd'']) = Some (Inr None) \<and>
   set (map fst [(across, ''bc''), (down, ''cb'')])
     = set (variables (corner [''aa'', ''bc'', ''cb'', ''dd''])) \<and>
   set (map snd [(across, ''bc''), (down, ''cb'')])
     \<subseteq> set (words (corner [''aa'', ''bc'', ''cb'', ''dd''])) \<and>
   consistent_spec (corner [''aa'', ''bc'', ''cb'', ''dd'']) [(across, ''bc''), (down, ''cb'')] \<and>
   solve square = None \<and>
   set (map fst [(across1, ''ab''), (across2, ''ca''), (down1, ''ac''), (down2, ''ba'')])
     = set (variables square) \<and>
   set (map snd [(across1, ''ab''), (across2, ''ca''), (down1, ''ac''), (down2, ''ba'')])
     \<subseteq> set (words square) \<and>
   consistent_spec square
     [(across1, ''ab''), (across2, ''ca''), (down1, ''ac''), (down2, ''ba'')]"
proof -
  have "solve (corner [''aa'', ''bc'', ''cb'', ''dd'']) = Some (Inr None)"
    by code_simp
  moreover have
    "set (map fst [(across, ''bc''), (down, ''cb'')])
       = set (variables (corner [''aa'', ''bc'', ''cb'', ''dd''])) \<and>
     set (map snd [(across, ''bc''), (down, ''cb'')])
       \<subseteq> set (words (corner [''aa'', ''bc'', ''cb'', ''dd''])) \<and>
     consistent_spec (corner [''aa'', ''bc'', ''cb'', ''dd''])
       [(across, ''bc''), (down, ''cb'')]"
    by code_simp
  moreover have
    "set (map fst [(across1, ''ab''), (across2, ''ca''), (down1, ''ac''), (down2, ''ba'')])
       = set (variables square) \<and>
     set (map snd [(across1, ''ab''), (across2, ''ca''), (down1, ''ac''), (down2, ''ba'')])
       \<subseteq> set (words square) \<and>
     consistent_spec square
       [(across1, ''ab''), (across2, ''ca''), (down1, ''ac''), (down2, ''ba'')]"
    by code_simp
  ultimately show ?thesis using solve_square by simp
qed

text \<open>
  C4: an assignment that \<open>solve\<close> returns has exactly the slots of the crossword as its
  keys, and it is consistent: every word has the length of its slot, no word is used
  twice, and the words of every two overlapping slots have the same character at the
  shared cell.
\<close>

theorem solve_sound:
  assumes "solve cw = Some (Inr (Some a))"
  shows "set (map fst a) = set (variables cw) \<and> distinct (map fst a) \<and>
         consistent_spec cw a \<and> overlapping_slots_agree cw a"
proof -
  from solve_sound_aux[OF assms]
  have k: "set (map fst a) = set (variables cw)" and d: "distinct (map fst a)"
    and c: "consistent_spec cw a" by auto
  from c have "overlaps_agree cw a" by (simp add: consistent_spec_def)
  from overlaps_agree_complete[OF this k] k d c show ?thesis by simp
qed

theorem solve_sound_witness:
  "solve (corner [''bc'', ''cb'']) = Some (Inr (Some [(across, ''bc''), (down, ''cb'')])) \<and>
   set (map fst [(across, ''bc''), (down, ''cb'')]) = set (variables (corner [''bc'', ''cb''])) \<and>
   distinct (map fst [(across, ''bc''), (down, ''cb'')]) \<and>
   consistent_spec (corner [''bc'', ''cb'']) [(across, ''bc''), (down, ''cb'')] \<and>
   overlapping_slots_agree (corner [''bc'', ''cb'']) [(across, ''bc''), (down, ''cb'')]"
proof -
  have s: "solve (corner [''bc'', ''cb''])
      = Some (Inr (Some [(across, ''bc''), (down, ''cb'')]))"
    by code_simp
  from s solve_sound[OF s] show ?thesis by simp
qed

text \<open>
  C5: a pass whose \<open>revise\<close> reports no change still puts the arcs of the other
  neighbours into the queue. On the square grid the pass for the arc from \<open>across1\<close>
  to \<open>down1\<close> leaves the store as it is and enqueues the arc from \<open>down2\<close> to
  \<open>across1\<close>.
\<close>

theorem ac3_pass_enqueues_without_revision:
  "revise square (enforce_node_consistency (init_domains square)) across1 down1
     = Inr (False, enforce_node_consistency (init_domains square)) \<and>
   ac3_pass square (enforce_node_consistency (init_domains square)) [(across1, down1)]
     = Next (enforce_node_consistency (init_domains square)) [(down2, across1)]"
proof -
  have "(across1, down1) \<in> set (all_arcs square_store)"
    by (simp add: square_all_arcs_eval)
  with square_revise_eval
  have r: "revise square square_store across1 down1 = Inr (False, square_store)"
    by (auto simp: list_all_iff)
  have "enqueue square across1 down1 [] = [(down2, across1)]"
    by (simp add: enqueue_def square_neighbors_eval) (simp add: down1_def down2_def)
  with r show ?thesis by (simp add: ac3_pass_def square_store_def)
qed

text \<open>
  What the checker does establish: whenever it returns, its value is the conjunction of
  the three clauses, and it does return when the overlap offsets of every assigned slot
  and assigned neighbour lie inside the two assigned words.
\<close>

lemma consistent_correct:
  assumes "distinct (map fst a)"
  shows "(consistent cw a = Inr b \<longrightarrow> b = consistent_spec cw a) \<and>
         (offsets_in_range cw a \<longrightarrow> consistent cw a = Inr (consistent_spec cw a))"
  using assms consistent_value consistent_returns by blast

text \<open>
  C6: the checker does not return a truth value for every assignment. On the corner
  grid, with \<open>bc\<close> for the across slot and the word \<open>c\<close>, which is too short, for the
  down slot, the length clause fails, so the answer should be \<open>False\<close>; the call raises
  \<^verbatim>\<open>IndexError\<close>, because the three checks are all evaluated before they are combined
  and the third one indexes the words without a test of their lengths.
\<close>

theorem consistent_faults_on_short_word:
  "distinct (map fst [(across, ''bc''), (down, ''c'')]) \<and>
   \<not> consistent_spec (corner [''bc'', ''c'']) [(across, ''bc''), (down, ''c'')] \<and>
   consistent (corner [''bc'', ''c'']) [(across, ''bc''), (down, ''c'')] = Inl IndexError"
  by code_simp

text \<open>
  C7: when \<open>revise cw doms x y\<close> returns, a word is in the domain of \<open>x\<close> afterwards
  if and only if it was there before and either \<open>x\<close> and \<open>y\<close> do not overlap or some
  word of the domain of \<open>y\<close> has, at the offset of \<open>y\<close>, the character that the word
  has at the offset of \<open>x\<close>; and the call returns \<open>True\<close> exactly when the domain of
  \<open>x\<close> has changed. The call does return when the words of the two domains reach the
  overlap offsets, as they do in a node-consistent store.
\<close>

theorem revise_sound:
  assumes "lookup doms x = Inr dx" and "lookup doms y = Inr dy"
  shows "(revise cw doms x y = Inr (revised, doms') \<longrightarrow>
          (\<exists>dx'. lookup doms' x = Inr dx' \<and>
             (\<forall>w. w \<in> set dx' \<longleftrightarrow>
                w \<in> set dx \<and>
                (overlaps cw (x, y) = Some None \<or>
                 (\<exists>ov. overlaps cw (x, y) = Some (Some ov) \<and>
                    (\<exists>w' \<in> set dy. same_char w (fst ov) w' (snd ov))))) \<and>
             (revised \<longleftrightarrow> set dx' \<noteq> set dx))) \<and>
         (offsets_fit cw x y dx dy \<longrightarrow> (\<exists>r. revise cw doms x y = Inr r))"
  using revise_sound_aux[OF _ assms] revise_returns[OF assms] by blast

theorem revise_sound_witness:
  "lookup [(across, [''ab'', ''cd'']), (down, [''xa'', ''yy''])] across = Inr [''ab'', ''cd''] \<and>
   lookup [(across, [''ab'', ''cd'']), (down, [''xa'', ''yy''])] down = Inr [''xa'', ''yy''] \<and>
   offsets_fit (corner []) across down [''ab'', ''cd''] [''xa'', ''yy''] \<and>
   revise (corner []) [(across, [''ab'', ''cd'']), (down, [''xa'', ''yy''])] across down
     = Inr (True, [(across, [''ab'']), (down, [''xa'', ''yy''])]) \<and>
   (\<exists>dx'. lookup [(across, [''ab'']), (down, [''xa'', ''yy''])] across = Inr dx' \<and>
      (\<forall>w. w \<in> set dx' \<longleftrightarrow>
         w \<in> set [''ab'', ''cd''] \<and>
         (overlaps (corner []) (across, down) = Some None \<or>
          (\<exists>ov. overlaps (corner []) (across, down) = Some (Some ov) \<and>
             (\<exists>w' \<in> set [''xa'', ''yy'']. same_char w (fst ov) w' (snd ov))))) \<and>
      (True \<longleftrightarrow> set dx' \<noteq> set [''ab'', ''cd'']))"
proof -
  have x: "lookup [(across, [''ab'', ''cd'']), (down, [''xa'', ''yy''])] across
     = Inr [''ab'', ''cd'']"
    by code_simp
  have y: "lookup [(across, [''ab'', ''cd'']), (down, [''xa'', ''yy''])] down
     = Inr [''xa'', ''yy'']"
    by code_simp
  have f: "offsets_fit (corner []) across down [''ab'', ''cd''] [''xa'', ''yy'']"
    by code_simp
  have r: "revise (corner []) [(across, [''ab'', ''cd'']), (down, [''xa'', ''yy''])] across down
     = Inr (True, [(across, [''ab'']), (down, [''xa'', ''yy''])])"
    by code_simp
  from x y f r revise_sound[OF x y, of "corner []" True
      "[(across, [''ab'']), (down, [''xa'', ''yy''])]"]
  show ?thesis by blast
qed

text \<open>
  C8: \<open>enforce_node_consistency\<close>, \<open>revise\<close> and \<open>ac3\<close> leave, for every slot, a
  subset of the words that the slot had before the call.
\<close>

theorem domains_only_shrink:
  "only_shrinks doms (enforce_node_consistency doms) \<and>
   (revise cw doms x y = Inr (revised, doms1) \<longrightarrow> only_shrinks doms doms1) \<and>
   (ac3 cw doms arcs = Some (Inr (b, doms2)) \<longrightarrow> only_shrinks doms doms2)"
  using enforce_node_consistency_shrinks revise_shrinks ac3_invariant by blast

theorem domains_only_shrink_witness:
  "revise (corner []) [(across, [''ab'', ''ba'', ''cd'']), (down, [''ab'', ''ba'', ''cd''])]
     across down
     = Inr (True, [(across, [''ab'', ''ba'']), (down, [''ab'', ''ba'', ''cd''])]) \<and>
   ac3 (corner []) [(across, [''ab'', ''ba'', ''cd'']), (down, [''ab'', ''ba'', ''cd''])] None
     = Some (Inr (True, [(across, [''ab'', ''ba'']), (down, [''ab'', ''ba''])])) \<and>
   only_shrinks [(across, [''ab'', ''ba'', ''cd'']), (down, [''ab'', ''ba'', ''cd''])]
     (enforce_node_consistency
        [(across, [''ab'', ''ba'', ''cd'']), (down, [''ab'', ''ba'', ''cd''])]) \<and>
   only_shrinks [(across, [''ab'', ''ba'', ''cd'']), (down, [''ab'', ''ba'', ''cd''])]
     [(across, [''ab'', ''ba'']), (down, [''ab'', ''ba'', ''cd''])] \<and>
   only_shrinks [(across, [''ab'', ''ba'', ''cd'']), (down, [''ab'', ''ba'', ''cd''])]
     [(across, [''ab'', ''ba'']), (down, [''ab'', ''ba''])]"
proof -
  let ?d = "[(across, [''ab'', ''ba'', ''cd'']), (down, [''ab'', ''ba'', ''cd''])]"
  have r: "revise (corner []) ?d across down
     = Inr (True, [(across, [''ab'', ''ba'']), (down, [''ab'', ''ba'', ''cd''])])"
    by (simp add: revise_def corner_defs lookup_def agree_def getitem_def set_eq_subset)
  have a: "ac3 (corner []) ?d None
     = Some (Inr (True, [(across, [''ab'', ''ba'']), (down, [''ab'', ''ba''])]))"
    by (simp add: eval_defs corner_defs ac3_loop.simps set_eq_subset)
  from r a domains_only_shrink[of ?d "corner []" across down True
      "[(across, [''ab'', ''ba'']), (down, [''ab'', ''ba'', ''cd''])]" None True
      "[(across, [''ab'', ''ba'']), (down, [''ab'', ''ba''])]"]
  show ?thesis by simp
qed

text \<open>
  C9: the store is created with one entry for each slot of the crossword, in the order
  of the slots, and \<open>enforce_node_consistency\<close>, \<open>revise\<close> and \<open>ac3\<close> leave the
  keys as they are.
\<close>

theorem domains_keys_preserved:
  "map fst (init_domains cw) = variables cw \<and>
   map fst (enforce_node_consistency doms) = map fst doms \<and>
   (revise cw doms x y = Inr (revised, doms1) \<longrightarrow> map fst doms1 = map fst doms) \<and>
   (ac3 cw doms arcs = Some (Inr (b, doms2)) \<longrightarrow> map fst doms2 = map fst doms)"
  using init_domains_keys enforce_node_consistency_keys revise_keys ac3_invariant by blast

theorem domains_keys_preserved_witness:
  "revise (corner [''ab'', ''b'', ''ba'', ''cd''])
       (enforce_node_consistency (init_domains (corner [''ab'', ''b'', ''ba'', ''cd''])))
       across down
     = Inr (True, [(across, [''ab'', ''ba'']), (down, [''ab'', ''ba'', ''cd''])]) \<and>
   ac3 (corner [''ab'', ''b'', ''ba'', ''cd''])
       (enforce_node_consistency (init_domains (corner [''ab'', ''b'', ''ba'', ''cd''])))
       None
     = Some (Inr (True, [(across, [''ab'', ''ba'']), (down, [''ab'', ''ba''])])) \<and>
   map fst (init_domains (corner [''ab'', ''b'', ''ba'', ''cd''])) = [across, down] \<and>
   map fst (enforce_node_consistency (init_domains (corner [''ab'', ''b'', ''ba'', ''cd''])))
     = [across, down]"
proof -
  let ?cw = "corner [''ab'', ''b'', ''ba'', ''cd'']"
  let ?d = "enforce_node_consistency (init_domains ?cw)"
  have d: "?d = [(across, [''ab'', ''ba'', ''cd'']), (down, [''ab'', ''ba'', ''cd''])]"
    by (simp add: enforce_node_consistency_def init_domains_def corner_defs)
  have r: "revise ?cw ?d across down
     = Inr (True, [(across, [''ab'', ''ba'']), (down, [''ab'', ''ba'', ''cd''])])"
    unfolding d by (simp add: revise_def corner_defs lookup_def agree_def getitem_def set_eq_subset)
  have a: "ac3 ?cw ?d None
     = Some (Inr (True, [(across, [''ab'', ''ba'']), (down, [''ab'', ''ba''])]))"
    unfolding d by (simp add: eval_defs corner_defs ac3_loop.simps set_eq_subset)
  have v: "variables ?cw = [across, down]" by (simp add: corner_def)
  from r a v domains_keys_preserved[of ?cw ?d across down True
      "[(across, [''ab'', ''ba'']), (down, [''ab'', ''ba'', ''cd''])]" None True
      "[(across, [''ab'', ''ba'']), (down, [''ab'', ''ba''])]"]
  show ?thesis by simp
qed

lemma set_all_arcs:
  "set (all_arcs doms) = {(x, y). x \<in> fst ` set doms \<and> y \<in> fst ` set doms \<and> x \<noteq> y}"
  by (auto simp: all_arcs_def)

text \<open>
  C10: a call of \<open>ac3\<close> with the empty list of arcs behaves as the call without an
  argument. In both calls the loop runs on the list of all ordered pairs of different
  slots of the store, so the empty list does not mean that nothing is propagated: on
  the corner grid the call with the empty list removes \<open>cd\<close> from both domains. A list
  that is not empty is the queue as it is given.
\<close>

theorem ac3_empty_arcs_is_default:
  "ac3 cw doms (Some []) = ac3 cw doms None \<and>
   ac3 cw doms (Some []) = ac3_loop cw doms (all_arcs doms) \<and>
   ac3 cw doms None = ac3_loop cw doms (all_arcs doms) \<and>
   set (all_arcs doms) = {(x, y). x \<in> fst ` set doms \<and> y \<in> fst ` set doms \<and> x \<noteq> y} \<and>
   ac3 cw doms (Some (arc # arcs)) = ac3_loop cw doms (arc # arcs) \<and>
   ac3 (corner []) [(across, [''ab'', ''ba'', ''cd'']), (down, [''ab'', ''ba'', ''cd''])]
       (Some [])
     = Some (Inr (True, [(across, [''ab'', ''ba'']), (down, [''ab'', ''ba''])])) \<and>
   ac3_loop (corner []) [(across, [''ab'', ''ba'', ''cd'']), (down, [''ab'', ''ba'', ''cd''])] []
     = Some (Inr (True, [(across, [''ab'', ''ba'', ''cd'']), (down, [''ab'', ''ba'', ''cd''])]))"
proof -
  have "ac3 (corner []) [(across, [''ab'', ''ba'', ''cd'']), (down, [''ab'', ''ba'', ''cd''])]
       (Some [])
     = Some (Inr (True, [(across, [''ab'', ''ba'']), (down, [''ab'', ''ba''])]))"
    by code_simp
  moreover have
    "ac3_loop (corner []) [(across, [''ab'', ''ba'', ''cd'']), (down, [''ab'', ''ba'', ''cd''])] []
     = Some (Inr (True, [(across, [''ab'', ''ba'', ''cd'']), (down, [''ab'', ''ba'', ''cd''])]))"
    by (simp add: ac3_loop.simps)
  ultimately show ?thesis
    using set_all_arcs[of doms] by (simp add: ac3_def)
qed

end
